theory Spec2Isabelle
  imports Complex_Main
begin

section \<open>minBlepy: the index arithmetic of the minBLEP table\<close>

text \<open>
  A shallow embedding of \<^verbatim>\<open>minBlepy/minblep.py\<close>, class \<^verbatim>\<open>MinBleps\<close>.

  \<^item> Python integers are \<^typ>\<open>int\<close>; \<open>//\<close> and \<open>%\<close> are \<open>div\<close> and \<open>mod\<close> (both floor).
  \<^item> The arrays of dtype \<^verbatim>\<open>np.int32\<close> are lists of \<^typ>\<open>int\<close> whose element arithmetic wraps
    around at 32 bits (\<open>wrap32\<close>), as numpy's array arithmetic does silently.
  \<^item> Scalars read out of those arrays and combined with Python integers (in
    \<^verbatim>\<open>getoutcount\<close> and \<^verbatim>\<open>getminnaiven\<close>) are computed exactly: the numpy the module was
    written for promotes such a result to the platform integer.
  \<^item> An array made by \<^verbatim>\<open>np.empty\<close> holds \<open>None\<close> where nothing was written yet.
  \<^item> Every exception is a value of type \<open>failure\<close>, on the left of a sum.
  \<^item> The floating-point pipeline (lines 78 to 94: window, sinc, FFT, cepstrum, cumulative
    sum) is not computed. Construction takes in its place two parameters: \<open>rounded\<close>, the
    value of \<^verbatim>\<open>int(self.round(4 / transition / 2))\<close>, and \<open>cumsum\<close>, the samples of
    \<^verbatim>\<open>np.cumsum(self.minbli)\<close> by position. The length of that array is computed
    (\<open>bli_length\<close>). Samples are carried as \<^typ>\<open>real\<close> and only ever moved, never computed with.
\<close>

datatype failure =
    ScaleMismatch int int  \<comment> \<open>\<^verbatim>\<open>Exception("Expected scale %s but ideal is %s.")\<close>\<close>
  | ZeroDivisionError
  | ValueError
  | IndexError
  | Uninitialised          \<comment> \<open>a read of an \<^verbatim>\<open>np.empty\<close> element that was never written\<close>
  | Diverged               \<comment> \<open>a loop that does not return\<close>

definition and_then :: "failure + 'a \<Rightarrow> ('a \<Rightarrow> failure + 'b) \<Rightarrow> failure + 'b" where
  "and_then m f = (case m of Inl e \<Rightarrow> Inl e | Inr x \<Rightarrow> f x)"

subsection \<open>32-bit array elements\<close>

definition wrap32 :: "int \<Rightarrow> int" where
  "wrap32 x = (x + 2147483648) mod 4294967296 - 2147483648"

definition mul32 :: "int \<Rightarrow> int \<Rightarrow> int" where
  "mul32 x k = wrap32 (x * k)"

definition add32 :: "int \<Rightarrow> int \<Rightarrow> int" where
  "add32 x k = wrap32 (x + k)"

definition sub32 :: "int \<Rightarrow> int \<Rightarrow> int" where
  "sub32 x k = wrap32 (x - k)"

definition floordiv32 :: "int \<Rightarrow> int \<Rightarrow> int" where
  "floordiv32 x k = wrap32 (x div k)"

text \<open>\<^verbatim>\<open>np.arange(n, dtype = np.int32)\<close>: empty when \<open>n \<le> 0\<close>.\<close>

definition arange32 :: "int \<Rightarrow> int list" where
  "arange32 n = map (\<lambda>i. wrap32 (int i)) [0..<nat n]"

subsection \<open>Indexing\<close>

text \<open>An index into an array of length \<open>len\<close>: a negative one counts from the end.\<close>

definition py_index :: "nat \<Rightarrow> int \<Rightarrow> failure + nat" where
  "py_index len i =
     (if 0 \<le> i \<and> i < int len then Inr (nat i)
      else if - int len \<le> i \<and> i < 0 then Inr (nat (i + int len))
      else Inl IndexError)"

definition np_get :: "'a list \<Rightarrow> int \<Rightarrow> failure + 'a" where
  "np_get xs i = and_then (py_index (length xs) i) (\<lambda>k. Inr (xs ! k))"

definition np_read :: "'a option list \<Rightarrow> int \<Rightarrow> failure + 'a" where
  "np_read xs i =
     and_then (py_index (length xs) i)
       (\<lambda>k. case xs ! k of None \<Rightarrow> Inl Uninitialised | Some v \<Rightarrow> Inr v)"

text \<open>\<^verbatim>\<open>xs[i::step]\<close> for \<open>i \<ge> 0\<close> and \<open>step \<ge> 1\<close>.\<close>

definition strided :: "'a list \<Rightarrow> nat \<Rightarrow> nat \<Rightarrow> 'a list" where
  "strided xs i step =
     map (\<lambda>k. xs ! (i + k * step)) [0..<(length xs + step - 1 - i) div step]"

text \<open>
  \<^verbatim>\<open>xs[lo:hi] = ys\<close> on a numpy array, \<open>0 \<le> lo\<close>, \<open>0 \<le> hi\<close>: the bounds are clipped to
  the array, and \<open>ys\<close> must have the slice's length or length one (it is then repeated).
\<close>

definition set_slice :: "'a list \<Rightarrow> nat \<Rightarrow> nat \<Rightarrow> 'a list \<Rightarrow> failure + 'a list" where
  "set_slice xs lo hi ys =
     (let lo' = min lo (length xs);
          hi' = max lo' (min hi (length xs));
          n = hi' - lo'
      in if length ys = n then Inr (take lo' xs @ ys @ drop hi' xs)
         else if length ys = 1 then Inr (take lo' xs @ replicate n (hd ys) @ drop hi' xs)
         else Inl ValueError)"

subsection \<open>resolvescale\<close>

text \<open>
  \<^verbatim>\<open>gcd\<close> is \<^verbatim>\<open>math.gcd\<close>: non-negative, and zero only when both rates are zero, where the
  division raises.
\<close>

definition resolvescale :: "int \<Rightarrow> int \<Rightarrow> int option \<Rightarrow> failure + int" where
  "resolvescale naiverate outrate scaleornone =
     (if gcd naiverate outrate = 0 then Inl ZeroDivisionError
      else let idealscale = naiverate div gcd naiverate outrate
           in case scaleornone of
                None \<Rightarrow> Inr idealscale
              | Some s \<Rightarrow>
                  if s \<noteq> idealscale then Inl (ScaleMismatch s idealscale)
                  else Inr idealscale)"

subsection \<open>The kernel's dimensions (lines 71 to 77, 82 and 83)\<close>

text \<open>\<^verbatim>\<open>while size < kernelsize: size <<= 1\<close>\<close>

partial_function (option) grow_size :: "int \<Rightarrow> int \<Rightarrow> int option" where
  "grow_size sz ksize =
     (if sz < ksize then grow_size (sz * 2) ksize else Some sz)"

record layout =
  order :: int
  kernelsize :: int
  fftsize :: int     \<comment> \<open>the source's \<^verbatim>\<open>size\<close>\<close>
  midpoint :: int
  rpad :: int
  lpad :: int

definition kernel_layout :: "int \<Rightarrow> int \<Rightarrow> layout option" where
  "kernel_layout rounded scale =
     (let order' = rounded * 2;
          kernelsize' = order' * scale + 1
      in case grow_size 1 kernelsize' of
           None \<Rightarrow> None
         | Some sz \<Rightarrow>
             let midpoint' = sz div 2;
                 rpad' = (sz - kernelsize') div 2;
                 lpad' = 1 + rpad'
             in Some \<lparr>order = order', kernelsize = kernelsize', fftsize = sz,
                       midpoint = midpoint', rpad = rpad', lpad = lpad'\<rparr>)"

text \<open>
  The length of \<^verbatim>\<open>self.bli\<close> after line 84, which the transforms and the cumulative sum
  keep: \<^verbatim>\<open>np.blackman\<close> and \<^verbatim>\<open>np.arange\<close> give an empty array for a size below one.
\<close>

definition bli_length :: "layout \<Rightarrow> nat" where
  "bli_length l = nat (lpad l) + nat (kernelsize l) + nat (rpad l)"

subsection \<open>The table\<close>

record minbleps =
  minblep :: "real list"
  mixinsize :: int
  naivex2outx :: "int list"
  naivex2shape :: "int list"
  demultiplexed :: "real option list"
  naivex2off :: "int list"
  outx2minnaivex :: "int option list"
  naiverate :: int
  outrate :: int

text \<open>
  Lines 107 and 108:
  \<^verbatim>\<open>for i in range(scale): demultiplexed[i * mixinsize:(i + 1) * mixinsize] = minblep[i::scale]\<close>
\<close>

fun demultiplex ::
  "real list \<Rightarrow> nat \<Rightarrow> nat \<Rightarrow> nat list \<Rightarrow> real option list \<Rightarrow> failure + real option list" where
  "demultiplex mb scale msize [] dm = Inr dm"
| "demultiplex mb scale msize (i # rest) dm =
     and_then (set_slice dm (i * msize) ((i + 1) * msize) (map Some (strided mb i scale)))
       (demultiplex mb scale msize rest)"

text \<open>
  Lines 111 and 112:
  \<^verbatim>\<open>for naivex in range(naiverate)[::-1]: outx2minnaivex[naivex2outx[naivex]] = naivex\<close>.
  The list is the indices in the order the loop visits them; each is below the length of
  \<open>n2o\<close>. The index is stored as a 32-bit element.
\<close>

fun fill_outx2minnaivex ::
  "int list \<Rightarrow> nat list \<Rightarrow> int option list \<Rightarrow> failure + int option list" where
  "fill_outx2minnaivex n2o [] o2m = Inr o2m"
| "fill_outx2minnaivex n2o (naivex # rest) o2m =
     and_then (py_index (length o2m) (n2o ! naivex))
       (\<lambda>k. fill_outx2minnaivex n2o rest (o2m[k := Some (wrap32 (int naivex))]))"

text \<open>
  Lines 96 to 99: zeros in front, then as many ones as make the length a multiple of
  \<open>scale\<close>. \<open>cum\<close> is \<^verbatim>\<open>np.cumsum(self.minbli)\<close>.
\<close>

definition pad_minblep :: "int \<Rightarrow> real list \<Rightarrow> real list" where
  "pad_minblep scale cum =
     (let minblep0 = replicate (nat (scale - 1)) 0 @ cum;
          ones = (- int (length minblep0)) mod scale
      in minblep0 @ replicate (nat ones) 1)"

text \<open>Lines 102 and 103.\<close>

definition nearest_of :: "int \<Rightarrow> int \<Rightarrow> int list" where
  "nearest_of naiverate' outrate' =
     (let dualscale = outrate' div gcd naiverate' outrate'
      in map (\<lambda>x. mul32 x dualscale) (arange32 naiverate'))"

text \<open>Line 104: \<^verbatim>\<open>nearest // scale\<close>.\<close>

definition outx_of :: "int list \<Rightarrow> int \<Rightarrow> int list" where
  "outx_of nearest scale = map (\<lambda>x. floordiv32 x scale) nearest"

text \<open>Line 105: \<^verbatim>\<open>self.naivex2outx * scale - nearest + scale - 1\<close>.\<close>

definition shape_of :: "int list \<Rightarrow> int list \<Rightarrow> int \<Rightarrow> int list" where
  "shape_of n2o nearest scale =
     map2 (\<lambda>out x. sub32 (add32 (sub32 (mul32 out scale) x) scale) 1) n2o nearest"

text \<open>
  \<^verbatim>\<open>MinBleps.__init__\<close> from line 71 on, in the order of the source. \<^verbatim>\<open>np.zeros\<close> and
  \<^verbatim>\<open>np.empty\<close> refuse a negative length; after \<^verbatim>\<open>np.zeros(scale - 1)\<close> has passed, \<open>scale\<close>
  is positive, so that \<open>%\<close> and \<open>//\<close> by it do not raise.
\<close>

definition MinBleps_init ::
  "int \<Rightarrow> int \<Rightarrow> int \<Rightarrow> int \<Rightarrow> (nat \<Rightarrow> real) \<Rightarrow> failure + minbleps" where
  "MinBleps_init naiverate' outrate' scale rounded cumsum =
     (case kernel_layout rounded scale of
        None \<Rightarrow> Inl Diverged
      | Some l \<Rightarrow>
          if scale - 1 < 0 then Inl ValueError
          else
            let minblep1 = pad_minblep scale (map cumsum [0..<bli_length l]);
                mixinsize1 = int (length minblep1) div scale
            in if gcd naiverate' outrate' = 0 then Inl ZeroDivisionError
               else
                 let nearest = nearest_of naiverate' outrate';
                     n2o = outx_of nearest scale;
                     n2s = shape_of n2o nearest scale
                 in and_then
                      (demultiplex minblep1 (nat scale) (nat mixinsize1) [0..<nat scale]
                         (replicate (length minblep1) None))
                      (\<lambda>dm.
                         let n2off = map (\<lambda>s. mul32 s mixinsize1) n2s
                         in if outrate' < 0 then Inl ValueError
                            else
                              and_then
                                (fill_outx2minnaivex n2o (rev [0..<nat naiverate'])
                                   (replicate (nat outrate') None))
                                (\<lambda>o2m.
                                   Inr \<lparr>minblep = minblep1, mixinsize = mixinsize1,
                                        naivex2outx = n2o, naivex2shape = n2s,
                                        demultiplexed = dm, naivex2off = n2off,
                                        outx2minnaivex = o2m,
                                        naiverate = naiverate', outrate = outrate'\<rparr>)))"

text \<open>\<^verbatim>\<open>MinBleps.create\<close>\<close>

definition create ::
  "int \<Rightarrow> int \<Rightarrow> int option \<Rightarrow> int \<Rightarrow> (nat \<Rightarrow> real) \<Rightarrow> failure + minbleps" where
  "create naiverate' outrate' scaleornone rounded cumsum =
     and_then (resolvescale naiverate' outrate' scaleornone)
       (\<lambda>scale. MinBleps_init naiverate' outrate' scale rounded cumsum)"

subsection \<open>getoutcount and getminnaiven\<close>



section \<open>Basic facts\<close>

lemma wrap32_id: "- 2147483648 \<le> x \<Longrightarrow> x < 2147483648 \<Longrightarrow> wrap32 x = x"
  by (simp add: wrap32_def)

lemma wrap32_range: "- 2147483648 \<le> wrap32 x \<and> wrap32 x < 2147483648"
  by (simp add: wrap32_def)

lemma and_then_Inr [simp]: "and_then (Inr x) f = f x"
  by (simp add: and_then_def)

lemma and_then_Inl [simp]: "and_then (Inl e) f = Inl e"
  by (simp add: and_then_def)

lemma and_then_eq_Inr: "and_then m f = Inr y \<longleftrightarrow> (\<exists>x. m = Inr x \<and> f x = Inr y)"
  by (cases m) simp_all

lemma gcd_4_6: "gcd (4::int) 6 = 2"
  by code_simp

section \<open>resolvescale\<close>

text \<open>
  Claim C2. For positive rates \<open>resolvescale\<close> returns the ideal scale
  \<open>naiverate div gcd naiverate outrate\<close> when no scale is requested or the requested one is the
  ideal one, and otherwise fails with an error that carries the requested and the ideal
  value; \<open>resolvescale 4 6 (Some 3)\<close> fails and \<open>resolvescale 4 6 (Some 2)\<close> returns 2.
\<close>

theorem resolvescale_ideal:
  "(0 < naiverate' \<and> 0 < outrate' \<longrightarrow>
      resolvescale naiverate' outrate' scaleornone =
        (if scaleornone = None \<or> scaleornone = Some (naiverate' div gcd naiverate' outrate')
         then Inr (naiverate' div gcd naiverate' outrate')
         else Inl (ScaleMismatch (the scaleornone) (naiverate' div gcd naiverate' outrate'))))
   \<and> resolvescale 4 6 (Some 3) = Inl (ScaleMismatch 3 2)
   \<and> resolvescale 4 6 (Some 2) = Inr 2"
  by (auto simp: resolvescale_def Let_def gcd_4_6 split: option.splits)

theorem resolvescale_ideal_witness:
  "(0::int) < 12 \<and> (0::int) < 18
   \<and> resolvescale 12 18 (Some 5) = Inl (ScaleMismatch 5 (12 div gcd 12 18))
   \<and> resolvescale 12 18 None = Inr (12 div gcd 12 18)"
  using resolvescale_ideal [of 12 18 "Some 5"] resolvescale_ideal [of 12 18 None]
  by (simp add: gcd_red_int [of 12 18] gcd_red_int [of 18 12])

section \<open>The kernel's dimensions and what construction returns\<close>

text \<open>The size loop returns from every positive start, with the least doubling that reaches
  the kernel size.\<close>

lemma grow_size_from:
  assumes "0 < sz"
  shows "\<exists>k. grow_size sz ksize = Some (sz * 2 ^ k) \<and> ksize \<le> sz * 2 ^ k
             \<and> (\<forall>j<k. sz * 2 ^ j < ksize)"
  using assms
proof (induction "nat (ksize - sz)" arbitrary: sz rule: less_induct)
  case less
  show ?case
  proof (cases "sz < ksize")
    case False
    then have "grow_size sz ksize = Some (sz * 2 ^ 0)"
      by (subst grow_size.simps) simp
    moreover have "ksize \<le> sz * 2 ^ 0" using False by simp
    ultimately show ?thesis by (intro exI[of _ 0]) simp
  next
    case True
    have "nat (ksize - sz * 2) < nat (ksize - sz)" using True less.prems by linarith
    moreover have "0 < sz * 2" using less.prems by simp
    ultimately obtain k where k: "grow_size (sz * 2) ksize = Some (sz * 2 * 2 ^ k)"
      "ksize \<le> sz * 2 * 2 ^ k" "\<forall>j<k. sz * 2 * 2 ^ j < ksize"
      using less.hyps[of "sz * 2"] by blast
    have "grow_size sz ksize = Some (sz * 2 ^ Suc k)"
      using True k(1) by (subst grow_size.simps) (simp add: mult.assoc)
    moreover have "ksize \<le> sz * 2 ^ Suc k" using k(2) by (simp add: mult.assoc)
    moreover have "\<forall>j<Suc k. sz * 2 ^ j < ksize"
    proof (intro allI impI)
      fix j assume "j < Suc k"
      show "sz * 2 ^ j < ksize"
      proof (cases j)
        case 0 then show ?thesis using True by simp
      next
        case (Suc i)
        then have "i < k" using \<open>j < Suc k\<close> by simp
        then show ?thesis using k(3) Suc by (simp add: mult.assoc)
      qed
    qed
    ultimately show ?thesis by blast
  qed
qed

lemma grow_size_step: "sz < ksize \<Longrightarrow> grow_size sz ksize = grow_size (sz * 2) ksize"
  by (subst grow_size.simps) simp

lemma grow_size_stop: "\<not> sz < ksize \<Longrightarrow> grow_size sz ksize = Some sz"
  by (subst grow_size.simps) simp

lemma kernel_layout_Some:
  "\<exists>k. kernel_layout rounded scale =
          Some \<lparr>order = rounded * 2, kernelsize = rounded * 2 * scale + 1, fftsize = 2 ^ k,
                midpoint = 2 ^ k div 2, rpad = (2 ^ k - (rounded * 2 * scale + 1)) div 2,
                lpad = 1 + (2 ^ k - (rounded * 2 * scale + 1)) div 2\<rparr>
        \<and> rounded * 2 * scale + 1 \<le> 2 ^ k \<and> (\<forall>j<k. 2 ^ j < rounded * 2 * scale + 1)"
proof -
  obtain k where "grow_size 1 (rounded * 2 * scale + 1) = Some (1 * 2 ^ k)"
    "rounded * 2 * scale + 1 \<le> 1 * 2 ^ k" "\<forall>j<k. 1 * 2 ^ j < rounded * 2 * scale + 1"
    using grow_size_from[of 1 "rounded * 2 * scale + 1"] by auto
  then show ?thesis
    by (intro exI[of _ k]) (simp add: kernel_layout_def Let_def)
qed

lemma MinBleps_init_InrD:
  assumes "MinBleps_init nr orr s r c = Inr t"
  shows "\<exists>l. kernel_layout r s = Some l \<and> 1 \<le> s \<and> gcd nr orr \<noteq> 0 \<and> 0 \<le> orr
    \<and> minblep t = pad_minblep s (map c [0..<bli_length l])
    \<and> mixinsize t = int (length (minblep t)) div s
    \<and> naivex2outx t = outx_of (nearest_of nr orr) s
    \<and> naivex2shape t = shape_of (naivex2outx t) (nearest_of nr orr) s
    \<and> naivex2off t = map (\<lambda>x. mul32 x (mixinsize t)) (naivex2shape t)
    \<and> demultiplex (minblep t) (nat s) (nat (mixinsize t)) [0..<nat s]
          (replicate (length (minblep t)) None) = Inr (demultiplexed t)
    \<and> fill_outx2minnaivex (naivex2outx t) (rev [0..<nat nr]) (replicate (nat orr) None)
          = Inr (outx2minnaivex t)
    \<and> naiverate t = nr \<and> outrate t = orr"
  using assms unfolding MinBleps_init_def Let_def
  by (auto simp: and_then_eq_Inr split: option.splits if_splits)


section \<open>Indexing, padding and the phases\<close>


lemma py_index_less: "py_index len i = Inr k \<Longrightarrow> k < len"
  by (auto simp: py_index_def split: if_splits)

lemma dvd_add_neg_mod: "(s::int) dvd n + (- n) mod s"
proof -
  have "(- n) mod s = - n - s * ((- n) div s)"
    by (simp add: minus_mult_div_eq_mod)
  then have "n + (- n) mod s = s * (- ((- n) div s))"
    by simp
  then show ?thesis
    by (metis dvd_triv_left)
qed

lemma length_pad_minblep:
  assumes "1 \<le> s"
  shows "s dvd int (length (pad_minblep s cum))"
    and "length (pad_minblep s cum)
           = nat (s - 1) + length cum + nat ((- int (nat (s - 1) + length cum)) mod s)"
proof -
  let ?n = "int (nat (s - 1) + length cum)"
  have nn: "0 \<le> (- ?n) mod s" using assms by simp
  show len: "length (pad_minblep s cum)
           = nat (s - 1) + length cum + nat ((- int (nat (s - 1) + length cum)) mod s)"
    by (simp add: pad_minblep_def Let_def)
  have "int (length (pad_minblep s cum)) = ?n + (- ?n) mod s"
    unfolding len using nn by simp
  moreover have "s dvd ?n + (- ?n) mod s"
    by (rule dvd_add_neg_mod)
  ultimately show "s dvd int (length (pad_minblep s cum))" by simp
qed

lemma length_strided:
  assumes "i < s" "length mb = s * m"
  shows "length (strided mb i s) = m"
proof -
  have "(s * m + s - 1 - i) div s = m"
  proof -
    have "s * m + s - 1 - i = (s - 1 - i) + m * s" using assms(1) by (simp add: algebra_simps)
    moreover have "s - 1 - i < s" using assms(1) by simp
    ultimately show ?thesis by simp
  qed
  then show ?thesis by (simp add: strided_def assms(2))
qed

lemma set_slice_exact:
  assumes "length ys = m" "(i + 1) * m \<le> length xs"
  shows "set_slice xs (i * m) ((i + 1) * m) ys = Inr (take (i * m) xs @ ys @ drop ((i + 1) * m) xs)"
proof -
  have "i * m \<le> length xs" using assms(2) by (simp add: algebra_simps)
  moreover have "i * m \<le> (i + 1) * m" by simp
  ultimately show ?thesis using assms
    by (simp add: set_slice_def Let_def min_def max_def)
qed

lemma demultiplex_append:
  "demultiplex mb s m (xs @ ys) dm = and_then (demultiplex mb s m xs dm) (demultiplex mb s m ys)"
proof (induction xs arbitrary: dm)
  case Nil
  then show ?case by simp
next
  case (Cons x xs)
  show ?case
    by (cases "set_slice dm (x * m) ((x + 1) * m) (map Some (strided mb x s))")
      (simp_all add: Cons.IH)
qed

lemma demultiplex_phases:
  assumes "length mb = s * m" "length dm = s * m" "j \<le> s"
  shows "\<exists>dm'. demultiplex mb s m [0..<j] dm = Inr dm' \<and> length dm' = s * m
           \<and> (\<forall>i<j. \<forall>k<m. dm' ! (i * m + k) = Some (mb ! (i + k * s)))
           \<and> (\<forall>p. j * m \<le> p \<longrightarrow> p < s * m \<longrightarrow> dm' ! p = dm ! p)"
  using assms(3)
proof (induction j)
  case 0
  then show ?case using assms by simp
next
  case (Suc j)
  then obtain d1 where d1: "demultiplex mb s m [0..<j] dm = Inr d1" "length d1 = s * m"
    "\<forall>i<j. \<forall>k<m. d1 ! (i * m + k) = Some (mb ! (i + k * s))"
    "\<forall>p. j * m \<le> p \<longrightarrow> p < s * m \<longrightarrow> d1 ! p = dm ! p"
    by auto
  let ?ys = "map Some (strided mb j s)"
  have js: "j < s" using Suc.prems by simp
  have ly: "length ?ys = m" using length_strided[OF js assms(1)] by simp
  have bound: "(j + 1) * m \<le> length d1"
  proof -
    have "(j + 1) * m \<le> s * m" using js by (intro mult_le_mono1) simp
    then show ?thesis using d1(2) by simp
  qed
  let ?d2 = "take (j * m) d1 @ ?ys @ drop ((j + 1) * m) d1"
  have step: "set_slice d1 (j * m) ((j + 1) * m) ?ys = Inr ?d2"
    by (rule set_slice_exact[OF ly bound])
  have run: "demultiplex mb s m [0..<Suc j] dm = Inr ?d2"
    using d1(1) step by (simp add: demultiplex_append)
  have jm: "j * m \<le> length d1" using bound by (simp add: algebra_simps)
  have len: "length ?d2 = s * m" using ly bound d1(2) jm by (simp add: algebra_simps)
  have old: "\<forall>i<j. \<forall>k<m. ?d2 ! (i * m + k) = Some (mb ! (i + k * s))"
  proof (intro allI impI)
    fix i k assume ik: "i < j" "k < m"
    have "i * m + k < j * m"
    proof -
      have "i * m + k < (i + 1) * m" using ik(2) by simp
      also have "\<dots> \<le> j * m" using ik(1) by (intro mult_le_mono1) simp
      finally show ?thesis .
    qed
    then have "?d2 ! (i * m + k) = d1 ! (i * m + k)" using jm by (simp add: nth_append)
    then show "?d2 ! (i * m + k) = Some (mb ! (i + k * s))" using d1(3) ik by simp
  qed
  have new: "\<forall>k<m. ?d2 ! (j * m + k) = Some (mb ! (j + k * s))"
  proof (intro allI impI)
    fix k assume k: "k < m"
    have "?d2 ! (j * m + k) = ?ys ! k" using jm ly k by (simp add: nth_append)
    also have "\<dots> = Some (strided mb j s ! k)" using k ly by simp
    also have "strided mb j s ! k = mb ! (j + k * s)"
      using k ly by (simp add: strided_def)
    finally show "?d2 ! (j * m + k) = Some (mb ! (j + k * s))" .
  qed
  have both: "\<forall>i<Suc j. \<forall>k<m. ?d2 ! (i * m + k) = Some (mb ! (i + k * s))"
    using old new by (auto simp: less_Suc_eq)
  have rest: "\<forall>p. Suc j * m \<le> p \<longrightarrow> p < s * m \<longrightarrow> ?d2 ! p = dm ! p"
  proof (intro allI impI)
    fix p assume p: "Suc j * m \<le> p" "p < s * m"
    have lt: "length (take (j * m) d1) = j * m" using jm by simp
    have n1: "\<not> p < j * m" and n2: "\<not> p - j * m < m" using p(1) by simp_all
    have ls: "length (strided mb j s) = m" using ly by simp
    have "?d2 ! p = drop ((j + 1) * m) d1 ! (p - j * m - m)"
      using n1 n2 lt by (simp add: nth_append ls)
    also have "\<dots> = d1 ! p" using p bound by simp
    also have "\<dots> = dm ! p" using d1(4) p by simp
    finally show "?d2 ! p = dm ! p" .
  qed
  show ?case using run len both rest by blast
qed


section \<open>The loop that fills outx2minnaivex\<close>

lemma fill_outx2minnaivex_length:
  "fill_outx2minnaivex n2o ns o2m = Inr o2m' \<Longrightarrow> length o2m' = length o2m"
proof (induction ns arbitrary: o2m)
  case Nil
  then show ?case by simp
next
  case (Cons n ns)
  then obtain k where "py_index (length o2m) (n2o ! n) = Inr k"
    "fill_outx2minnaivex n2o ns (o2m[k := Some (wrap32 (int n))]) = Inr o2m'"
    by (auto simp: and_then_eq_Inr)
  then show ?case using Cons.IH by fastforce
qed

lemma fill_outx2minnaivex_valid:
  "fill_outx2minnaivex n2o ns o2m = Inr o2m' \<Longrightarrow> n \<in> set ns
     \<Longrightarrow> \<exists>k. py_index (length o2m) (n2o ! n) = Inr k"
proof (induction ns arbitrary: o2m)
  case Nil
  then show ?case by simp
next
  case (Cons a ns)
  then obtain k where k: "py_index (length o2m) (n2o ! a) = Inr k"
    "fill_outx2minnaivex n2o ns (o2m[k := Some (wrap32 (int a))]) = Inr o2m'"
    by (auto simp: and_then_eq_Inr)
  show ?case
  proof (cases "n = a")
    case True
    then show ?thesis using k(1) by blast
  next
    case False
    then have "n \<in> set ns" using Cons.prems(2) by simp
    then show ?thesis using Cons.IH[OF k(2)] by simp
  qed
qed

lemma fill_outx2minnaivex_succeeds:
  "(\<forall>n\<in>set ns. \<exists>k. py_index (length o2m) (n2o ! n) = Inr k)
     \<Longrightarrow> \<exists>o2m'. fill_outx2minnaivex n2o ns o2m = Inr o2m'"
proof (induction ns arbitrary: o2m)
  case Nil
  then show ?case by simp
next
  case (Cons a ns)
  then obtain k where k: "py_index (length o2m) (n2o ! a) = Inr k" by auto
  have "\<forall>n\<in>set ns. \<exists>j. py_index (length (o2m[k := Some (wrap32 (int a))])) (n2o ! n) = Inr j"
    using Cons.prems by simp
  from Cons.IH[OF this] show ?case using k by simp
qed

lemma find_snoc:
  "find P (xs @ [a]) = (case find P xs of None \<Rightarrow> (if P a then Some a else None) | Some n \<Rightarrow> Some n)"
  by (induction xs) simp_all

text \<open>The element a slot holds in the end: the last index of the visiting order that
  designates it, or what was there before.\<close>

lemma fill_outx2minnaivex_nth:
  "fill_outx2minnaivex n2o ns o2m = Inr o2m' \<Longrightarrow> k < length o2m \<Longrightarrow>
     o2m' ! k =
       (case find (\<lambda>n. py_index (length o2m) (n2o ! n) = Inr k) (rev ns) of
          None \<Rightarrow> o2m ! k
        | Some n \<Rightarrow> Some (wrap32 (int n)))"
proof (induction ns arbitrary: o2m)
  case Nil
  then show ?case by simp
next
  case (Cons a ns)
  let ?P = "\<lambda>n. py_index (length o2m) (n2o ! n) = Inr k"
  from Cons.prems obtain ka where ka: "py_index (length o2m) (n2o ! a) = Inr ka"
    "fill_outx2minnaivex n2o ns (o2m[ka := Some (wrap32 (int a))]) = Inr o2m'"
    by (auto simp: and_then_eq_Inr)
  have IH: "o2m' ! k = (case find ?P (rev ns) of None \<Rightarrow> (o2m[ka := Some (wrap32 (int a))]) ! k
                         | Some n \<Rightarrow> Some (wrap32 (int n)))"
    using Cons.IH[OF ka(2)] Cons.prems(2) by simp
  have fa: "find ?P (rev ns @ [a])
              = (case find ?P (rev ns) of None \<Rightarrow> (if ?P a then Some a else None) | Some n \<Rightarrow> Some n)"
    by (rule find_snoc)
  show ?case
  proof (cases "find ?P (rev ns)")
    case (Some n)
    then show ?thesis using IH fa by simp
  next
    case None
    show ?thesis
    proof (cases "ka = k")
      case True
      then show ?thesis using IH fa None ka(1) Cons.prems(2) by simp
    next
      case False
      then show ?thesis using IH fa None ka(1) by simp
    qed
  qed
qed

lemma find_upt_least:
  "find P [0..<N] = Some n \<longleftrightarrow> n < N \<and> P n \<and> (\<forall>m<n. \<not> P m)"
  by (auto simp: find_Some_iff)

lemma find_upt_None: "find P [0..<N] = None \<longleftrightarrow> (\<forall>n<N. \<not> P n)"
  by (auto simp: find_None_iff)

section \<open>Arithmetic of the 32-bit elements\<close>

lemma wrap32_cong: "a mod 4294967296 = b mod 4294967296 \<Longrightarrow> wrap32 a = wrap32 b"
proof -
  assume "a mod 4294967296 = b mod 4294967296"
  then have "(a + 2147483648) mod 4294967296 = (b + 2147483648) mod 4294967296"
    by (rule mod_add_cong) simp
  then show ?thesis by (simp only: wrap32_def)
qed

lemma wrap32_mod: "wrap32 a mod 4294967296 = a mod 4294967296"
proof -
  have "wrap32 a mod 4294967296 = ((a + 2147483648) mod 4294967296 - 2147483648 mod 4294967296) mod 4294967296"
    unfolding wrap32_def by (simp only: mod_diff_right_eq)
  also have "\<dots> = (a + 2147483648 - 2147483648) mod 4294967296"
    by (simp only: mod_diff_eq)
  finally show ?thesis by simp
qed

lemma wrap32_add_left: "wrap32 (wrap32 a + b) = wrap32 (a + b)"
  by (rule wrap32_cong) (rule mod_add_cong[OF wrap32_mod refl])

lemma wrap32_diff_left: "wrap32 (wrap32 a - b) = wrap32 (a - b)"
  by (rule wrap32_cong) (rule mod_diff_cong[OF wrap32_mod refl])

lemma wrap32_mult_left: "wrap32 (wrap32 a * b) = wrap32 (a * b)"
  by (rule wrap32_cong) (rule mod_mult_cong[OF wrap32_mod refl])

lemma shape32: "sub32 (add32 (sub32 (mul32 q s) x) s) 1 = wrap32 (q * s - x + s - 1)"
  by (simp add: sub32_def add32_def mul32_def wrap32_add_left wrap32_diff_left)

lemma length_arange32 [simp]: "length (arange32 n) = nat n"
  by (simp add: arange32_def)

lemma nth_arange32: "i < nat n \<Longrightarrow> arange32 n ! i = wrap32 (int i)"
  by (simp add: arange32_def)

lemma length_nearest_of [simp]: "length (nearest_of nr orr) = nat nr"
  by (simp add: nearest_of_def)

lemma nth_nearest_of:
  "i < nat nr \<Longrightarrow> nearest_of nr orr ! i = wrap32 (int i * (orr div gcd nr orr))"
  by (simp add: nearest_of_def nth_arange32 mul32_def wrap32_mult_left)

lemma length_outx_of [simp]: "length (outx_of nearest s) = length nearest"
  by (simp add: outx_of_def)

lemma nth_outx_of: "i < length nearest \<Longrightarrow> outx_of nearest s ! i = floordiv32 (nearest ! i) s"
  by (simp add: outx_of_def)

lemma length_shape_of [simp]:
  "length (shape_of n2o nearest s) = min (length n2o) (length nearest)"
  by (simp add: shape_of_def)

lemma nth_shape_of:
  "i < length n2o \<Longrightarrow> i < length nearest \<Longrightarrow>
     shape_of n2o nearest s ! i = wrap32 (n2o ! i * s - nearest ! i + s - 1)"
  by (simp add: shape_of_def shape32)

text \<open>The rates over their greatest common divisor.\<close>

lemma rates_gcd:
  fixes nr orr :: int
  assumes "0 < nr" "0 < orr"
  shows "0 < gcd nr orr" "0 < nr div gcd nr orr" "0 < orr div gcd nr orr"
    "nr div gcd nr orr * gcd nr orr = nr" "orr div gcd nr orr * gcd nr orr = orr"
proof -
  show g: "0 < gcd nr orr" using assms by auto
  show "nr div gcd nr orr * gcd nr orr = nr" by simp
  show "orr div gcd nr orr * gcd nr orr = orr" by simp
  have "gcd nr orr \<le> nr" using assms(1) by (rule gcd_le1_int)
  then show "0 < nr div gcd nr orr" using g by (simp add: pos_imp_zdiv_pos_iff)
  have "gcd nr orr \<le> orr" using assms(2) by (rule gcd_le2_int)
  then show "0 < orr div gcd nr orr" using g by (simp add: pos_imp_zdiv_pos_iff)
qed


lemma div_less_mult:
  fixes a b s :: int
  assumes "0 < s" "a < b * s"
  shows "a div s < b"
proof (rule ccontr)
  assume "\<not> a div s < b"
  then have "b * s \<le> (a div s) * s" using assms(1) by (simp add: mult_right_mono)
  moreover have "s * (a div s) + a mod s = a" by (rule mult_div_mod_eq)
  moreover have "0 \<le> a mod s" using assms(1) by (rule pos_mod_sign)
  ultimately show False using assms(2)
    unfolding mult.commute[of "a div s" s] by linarith
qed



text \<open>While no product leaves the 32-bit range, the arrays hold the exact values.\<close>

lemma nearest_exact:
  assumes "0 < orr" "(nr - 1) * (orr div gcd nr orr) < 2147483648" "i < nat nr"
  shows "nearest_of nr orr ! i = int i * (orr div gcd nr orr)"
    and "0 \<le> int i * (orr div gcd nr orr)"
    and "int i * (orr div gcd nr orr) < 2147483648"
proof -
  let ?d = "orr div gcd nr orr"
  have nr: "0 < nr" using assms(3) by simp
  have d: "0 < ?d" using rates_gcd(3)[OF nr assms(1)] .
  show nn: "0 \<le> int i * ?d" using d by simp
  have "int i \<le> nr - 1" using assms(3) by simp
  then have "int i * ?d \<le> (nr - 1) * ?d" using d by (simp add: mult_right_mono)
  then show lt: "int i * ?d < 2147483648" using assms(2) by simp
  show "nearest_of nr orr ! i = int i * ?d"
    using nn lt by (simp add: nth_nearest_of[OF assms(3)] wrap32_id)
qed

lemma outx_exact:
  assumes "0 < orr" "(nr - 1) * (orr div gcd nr orr) < 2147483648" "i < nat nr" "0 < s"
  shows "outx_of (nearest_of nr orr) s ! i = int i * (orr div gcd nr orr) div s"
    and "0 \<le> int i * (orr div gcd nr orr) div s"
proof -
  let ?x = "int i * (orr div gcd nr orr)"
  note ne = nearest_exact[OF assms(1,2,3)]
  show nn: "0 \<le> ?x div s" using ne(2) assms(4) by (simp add: pos_imp_zdiv_nonneg_iff)
  have "?x div s \<le> ?x" using ne(2) assms(4)
    by (metis div_by_1 int_one_le_iff_zero_less zdiv_mono2 zero_less_one)
  then have "?x div s < 2147483648" using ne(3) by simp
  then show "outx_of (nearest_of nr orr) s ! i = ?x div s"
    using nn assms(3) by (simp add: nth_outx_of ne(1) floordiv32_def wrap32_id)
qed

lemma outx_below_outrate:
  assumes "0 < nr" "0 < orr" "i < nat nr"
  shows "int i * (orr div gcd nr orr) div (nr div gcd nr orr) < orr"
proof -
  let ?g = "gcd nr orr" let ?d = "orr div ?g" let ?s = "nr div ?g"
  note r = rates_gcd[OF assms(1,2)]
  have "int i < nr" using assms(3) by simp
  then have "int i * ?d < nr * ?d" using r(3) by simp
  also have "nr * ?d = (?s * ?g) * ?d" by (simp only: r(4))
  also have "\<dots> = (?d * ?g) * ?s" by (simp only: mult.commute mult.left_commute)
  also have "\<dots> = orr * ?s" by (simp only: r(5))
  finally have "int i * ?d < orr * ?s" .
  then show ?thesis by (rule div_less_mult[OF r(2)])
qed


section \<open>When construction succeeds\<close>

lemma length_pad_split:
  assumes "1 \<le> s"
  shows "length (pad_minblep s cum) = nat s * nat (int (length (pad_minblep s cum)) div s)"
proof -
  let ?L = "int (length (pad_minblep s cum))"
  have "s dvd ?L" using length_pad_minblep(1)[OF assms] .
  then have "?L = s * (?L div s)" by simp
  moreover have "0 \<le> ?L div s" using assms by (simp add: pos_imp_zdiv_nonneg_iff)
  ultimately have "?L = int (nat s * nat (?L div s))" using assms by simp
  then show ?thesis by linarith
qed

lemma demultiplex_succeeds:
  assumes "1 \<le> s"
  shows "\<exists>dm. demultiplex (pad_minblep s cum) (nat s)
                (nat (int (length (pad_minblep s cum)) div s)) [0..<nat s]
                (replicate (length (pad_minblep s cum)) None) = Inr dm"
proof -
  let ?mb = "pad_minblep s cum"
  let ?m = "nat (int (length ?mb) div s)"
  have len: "length ?mb = nat s * ?m" by (rule length_pad_split[OF assms])
  have "length (replicate (length ?mb) (None::real option)) = nat s * ?m" using len by simp
  from demultiplex_phases[OF len this, of "nat s"] show ?thesis by blast
qed

lemma MinBleps_init_succeeds:
  assumes "1 \<le> s" "gcd nr orr \<noteq> 0" "0 \<le> orr"
    and "\<forall>n<nat nr. \<exists>k. py_index (nat orr) (outx_of (nearest_of nr orr) s ! n) = Inr k"
  shows "\<exists>t. MinBleps_init nr orr s r c = Inr t"
proof -
  obtain l where l: "kernel_layout r s = Some l" using kernel_layout_Some[of r s] by blast
  obtain dm where dm: "demultiplex (pad_minblep s (map c [0..<bli_length l])) (nat s)
                (nat (int (length (pad_minblep s (map c [0..<bli_length l]))) div s)) [0..<nat s]
                (replicate (length (pad_minblep s (map c [0..<bli_length l]))) None) = Inr dm"
    using demultiplex_succeeds[OF assms(1)] by blast
  have "\<forall>n\<in>set (rev [0..<nat nr]).
          \<exists>k. py_index (length (replicate (nat orr) (None::int option)))
                (outx_of (nearest_of nr orr) s ! n) = Inr k"
    using assms(4) by simp
  from fill_outx2minnaivex_succeeds[OF this]
  obtain o2m where o2m: "fill_outx2minnaivex (outx_of (nearest_of nr orr) s) (rev [0..<nat nr])
                           (replicate (nat orr) None) = Inr o2m" by blast
  show ?thesis
    unfolding MinBleps_init_def Let_def using l assms(1,2,3) dm o2m by simp
qed

lemma py_index_exact:
  assumes "0 \<le> v" "v < int len"
  shows "py_index len v = Inr (nat v)"
  using assms by (simp add: py_index_def)

lemma create_succeeds:
  assumes "0 < nr" "0 < orr" "(nr - 1) * (orr div gcd nr orr) < 2147483648"
  shows "\<exists>t. create nr orr None r c = Inr t
           \<and> MinBleps_init nr orr (nr div gcd nr orr) r c = Inr t"
proof -
  let ?s = "nr div gcd nr orr"
  note rg = rates_gcd[OF assms(1,2)]
  have res: "resolvescale nr orr None = Inr ?s"
    using rg(1) by (simp add: resolvescale_def)
  have idx: "\<forall>n<nat nr. \<exists>k. py_index (nat orr) (outx_of (nearest_of nr orr) ?s ! n) = Inr k"
  proof (intro allI impI)
    fix n assume n: "n < nat nr"
    note oe = outx_exact[OF assms(2,3) n rg(2)]
    have "outx_of (nearest_of nr orr) ?s ! n < int (nat orr)"
      using outx_below_outrate[OF assms(1,2) n] oe(1) assms(2) by simp
    then show "\<exists>k. py_index (nat orr) (outx_of (nearest_of nr orr) ?s ! n) = Inr k"
      using oe py_index_exact by metis
  qed
  have "1 \<le> ?s" using rg(2) by simp
  moreover have "gcd nr orr \<noteq> 0" using rg(1) by simp
  moreover have "0 \<le> orr" using assms(2) by simp
  ultimately obtain t where "MinBleps_init nr orr ?s r c = Inr t"
    using MinBleps_init_succeeds[OF _ _ _ idx] by blast
  then show ?thesis using res by (simp add: create_def)
qed

lemma create_ideal:
  assumes "0 < nr" "0 < orr"
    and "scaleornone = None \<or> scaleornone = Some (nr div gcd nr orr)"
  shows "create nr orr scaleornone r c = MinBleps_init nr orr (nr div gcd nr orr) r c"
proof -
  have "resolvescale nr orr scaleornone = Inr (nr div gcd nr orr)"
    using rates_gcd(1)[OF assms(1,2)] assms(3) by (auto simp: resolvescale_def)
  then show ?thesis by (simp add: create_def)
qed

section \<open>A table whose products wrap around\<close>

lemma gcd_65537_32768: "gcd (65537::int) 32768 = 1"
  by (simp add: gcd_red_int[of 65537 32768] gcd_red_int[of 32768 1])

lemma outx_at_overflow:
  "outx_of (nearest_of 65537 32768) 65537 ! 65536 = - 32768"
  by (simp add: nth_outx_of nth_nearest_of gcd_65537_32768 floordiv32_def wrap32_def)

lemma outx_range_overflow:
  assumes "n < 65537"
  shows "- 32768 \<le> outx_of (nearest_of 65537 32768) 65537 ! n"
    and "outx_of (nearest_of 65537 32768) 65537 ! n < 32768"
    and "n < 65536 \<Longrightarrow> outx_of (nearest_of 65537 32768) 65537 ! n = int n * 32768 div 65537"
proof -
  have v: "outx_of (nearest_of 65537 32768) 65537 ! n = wrap32 (wrap32 (int n * 32768) div 65537)"
    using assms by (simp add: nth_outx_of nth_nearest_of gcd_65537_32768 floordiv32_def)
  have small: "outx_of (nearest_of 65537 32768) 65537 ! n = int n * 32768 div 65537"
    "0 \<le> int n * 32768 div 65537" "int n * 32768 div 65537 < 32768" if "n < 65536"
  proof -
    have w: "wrap32 (int n * 32768) = int n * 32768" using that by (intro wrap32_id) simp_all
    show a: "0 \<le> int n * 32768 div 65537" by simp
    show b: "int n * 32768 div 65537 < 32768" using that by simp
    show "outx_of (nearest_of 65537 32768) 65537 ! n = int n * 32768 div 65537"
      unfolding v w using a b by (intro wrap32_id) simp_all
  qed
  show "n < 65536 \<Longrightarrow> outx_of (nearest_of 65537 32768) 65537 ! n = int n * 32768 div 65537"
    by (rule small(1))
  have top: "n = 65536 \<Longrightarrow> outx_of (nearest_of 65537 32768) 65537 ! n = - 32768"
    using outx_at_overflow by simp
  have "n < 65536 \<or> n = 65536" using assms by linarith
  then show "- 32768 \<le> outx_of (nearest_of 65537 32768) 65537 ! n"
    and "outx_of (nearest_of 65537 32768) 65537 ! n < 32768"
    using small top by auto
qed

lemma overflow_table:
  "\<exists>t. create 65537 32768 None r c = Inr t \<and> MinBleps_init 65537 32768 65537 r c = Inr t"
proof -
  have idx: "\<forall>n<nat 65537. \<exists>k. py_index (nat 32768) (outx_of (nearest_of 65537 32768) 65537 ! n) = Inr k"
  proof (intro allI impI)
    fix n :: nat assume "n < nat 65537"
    then have n: "n < 65537" by simp
    show "\<exists>k. py_index (nat 32768) (outx_of (nearest_of 65537 32768) 65537 ! n) = Inr k"
      using outx_range_overflow(1,2)[OF n] by (simp add: py_index_def)
  qed
  have "\<exists>t. MinBleps_init 65537 32768 65537 r c = Inr t"
    by (rule MinBleps_init_succeeds[OF _ _ _ idx]) (simp_all add: gcd_65537_32768)
  moreover have "create 65537 32768 None r c = MinBleps_init 65537 32768 65537 r c"
    using create_ideal[of 65537 32768 None r c] by (simp add: gcd_65537_32768)
  ultimately show ?thesis by auto
qed


section \<open>The forward map\<close>

lemma create_ideal_succeeds:
  assumes "0 < nr" "0 < orr" "(nr - 1) * (orr div gcd nr orr) < 2147483648"
    and "scaleornone = None \<or> scaleornone = Some (nr div gcd nr orr)"
  shows "\<exists>t. create nr orr scaleornone r c = Inr t
           \<and> MinBleps_init nr orr (nr div gcd nr orr) r c = Inr t"
  using create_succeeds[OF assms(1,2,3), of r c] create_ideal[OF assms(1,2,4), of r c]
  by auto

text \<open>
  Claim C4, as amended. While no product \<open>n * dualscale\<close> leaves the 32-bit range, that is
  while \<open>(naiverate - 1) * dualscale < 2^31\<close>, construction with the resolved scale
  succeeds, \<open>naivex2outx[n]\<close> is the floor of \<open>n * dualscale / scale\<close>, and
  \<open>naivex2shape[n] = naivex2outx[n] * scale - n * dualscale + scale - 1\<close> lies in
  \<open>[0, scale)\<close>.
\<close>

theorem naivex2outx_floor:
  assumes "0 < nr" "0 < orr" "(nr - 1) * (orr div gcd nr orr) < 2147483648"
    and "scaleornone = None \<or> scaleornone = Some (nr div gcd nr orr)"
  shows "\<exists>t. create nr orr scaleornone r c = Inr t
           \<and> length (naivex2outx t) = nat nr \<and> length (naivex2shape t) = nat nr
           \<and> (\<forall>n<nat nr.
                 naivex2outx t ! n = int n * (orr div gcd nr orr) div (nr div gcd nr orr)
               \<and> naivex2shape t ! n
                     = naivex2outx t ! n * (nr div gcd nr orr) - int n * (orr div gcd nr orr)
                       + (nr div gcd nr orr) - 1
               \<and> 0 \<le> naivex2shape t ! n \<and> naivex2shape t ! n < nr div gcd nr orr)"
proof -
  let ?d = "orr div gcd nr orr" and ?s = "nr div gcd nr orr"
  note rg = rates_gcd[OF assms(1,2)]
  obtain t where t: "create nr orr scaleornone r c = Inr t"
    "MinBleps_init nr orr ?s r c = Inr t"
    using create_ideal_succeeds[OF assms] by blast
  from MinBleps_init_InrD[OF t(2)]
  have n2o: "naivex2outx t = outx_of (nearest_of nr orr) ?s"
    and n2s: "naivex2shape t = shape_of (naivex2outx t) (nearest_of nr orr) ?s"
    by auto
  have l1: "length (naivex2outx t) = nat nr" by (simp add: n2o)
  have l2: "length (naivex2shape t) = nat nr" by (simp add: n2s l1)
  have sle: "?s - 1 < 2147483648"
  proof -
    have "gcd nr orr \<ge> 1" using rg(1) by linarith
    then have "?s * 1 \<le> ?s * gcd nr orr" using rg(2) by (intro mult_left_mono) simp_all
    then have "?s \<le> nr" using rg(4) by simp
    moreover have "(nr - 1) * 1 \<le> (nr - 1) * ?d"
      using rg(3) assms(1) by (intro mult_left_mono) simp_all
    ultimately show ?thesis using assms(3) by simp
  qed
  have each: "naivex2outx t ! n = int n * ?d div ?s
               \<and> naivex2shape t ! n = naivex2outx t ! n * ?s - int n * ?d + ?s - 1
               \<and> 0 \<le> naivex2shape t ! n \<and> naivex2shape t ! n < ?s" if n: "n < nat nr" for n
  proof -
    let ?x = "int n * ?d"
    note ne = nearest_exact[OF assms(2,3) n]
    note oe = outx_exact[OF assms(2,3) n rg(2)]
    have q: "naivex2outx t ! n = ?x div ?s" using oe(1) by (simp add: n2o)
    have "?s * (?x div ?s) + ?x mod ?s = ?x" by (rule mult_div_mod_eq)
    then have v: "?x div ?s * ?s - ?x + ?s - 1 = ?s - 1 - ?x mod ?s"
      unfolding mult.commute[of "?x div ?s" ?s] by linarith
    have m0: "0 \<le> ?x mod ?s" using rg(2) by (rule pos_mod_sign)
    have m1: "?x mod ?s < ?s" using rg(2) by (rule pos_mod_bound)
    have "naivex2shape t ! n = wrap32 (?x div ?s * ?s - ?x + ?s - 1)"
      using n l1 by (simp add: n2s nth_shape_of q ne(1))
    also have "\<dots> = ?x div ?s * ?s - ?x + ?s - 1"
      unfolding v using m0 m1 sle by (intro wrap32_id) linarith+
    finally have sh: "naivex2shape t ! n = ?x div ?s * ?s - ?x + ?s - 1" .
    show ?thesis using q sh v m0 m1 by simp
  qed
  show ?thesis using t(1) l1 l2 each by blast
qed

theorem naivex2outx_floor_witness:
  "(0::int) < 4 \<and> (0::int) < 6 \<and> (4 - 1) * (6 div gcd 4 6) < (2147483648::int)
   \<and> (\<exists>t. create 4 6 None 1 (\<lambda>k. 0) = Inr t
          \<and> naivex2outx t ! 3 = 4 \<and> naivex2shape t ! 3 = 0)"
proof -
  have b: "(4 - 1) * (6 div gcd 4 6) < (2147483648::int)" by (simp add: gcd_4_6)
  from naivex2outx_floor[of 4 6 None 1 "\<lambda>k. 0", OF _ _ b]
  obtain t where t: "create 4 6 None 1 (\<lambda>k. 0) = Inr t"
    and all: "\<forall>n<nat 4. naivex2outx t ! n = int n * (6 div gcd 4 6) div (4 div gcd 4 6)
               \<and> naivex2shape t ! n
                     = naivex2outx t ! n * (4 div gcd 4 6) - int n * (6 div gcd 4 6)
                       + (4 div gcd 4 6) - 1
               \<and> 0 \<le> naivex2shape t ! n \<and> naivex2shape t ! n < 4 div gcd 4 6"
    by auto
  from all have "naivex2outx t ! 3 = 4 \<and> naivex2shape t ! 3 = 0"
    by (simp add: gcd_4_6)
  then show ?thesis using t b by auto
qed

text \<open>
  Claim C4 as stated fails where a product wraps around: for \<open>naiverate = 65537\<close> and
  \<open>outrate = 32768\<close> the product \<open>65536 * 32768\<close> is \<open>2^31\<close>, which a 32-bit element
  holds as \<open>- 2^31\<close>, so that \<open>naivex2outx[65536]\<close> is \<open>- 32768\<close> and not the floor \<open>32767\<close>.
\<close>

theorem naivex2outx_floor_counterexample:
  "and_then (create 65537 32768 None 40 (\<lambda>k. 0)) (\<lambda>t. np_get (naivex2outx t) 65536)
     = Inr (- 32768)
   \<and> 65536 * (32768 div gcd 65537 32768) div (65537 div gcd 65537 32768) = (32767::int)"
proof -
  obtain t where t: "create 65537 32768 None 40 (\<lambda>k. 0) = Inr t"
    "MinBleps_init 65537 32768 65537 40 (\<lambda>k. 0) = Inr t"
    using overflow_table by blast
  from MinBleps_init_InrD[OF t(2)]
  have n2o: "naivex2outx t = outx_of (nearest_of 65537 32768) 65537" by auto
  have "np_get (naivex2outx t) 65536 = Inr (- 32768)"
    by (simp add: n2o np_get_def py_index_def outx_at_overflow)
  then show ?thesis using t(1) by (simp add: gcd_65537_32768)
qed

text \<open>What construction leaves in \<open>outx2minnaivex\<close>: each slot holds the first index, counting
  up from zero, whose \<open>naivex2outx\<close> entry designates the slot, and nothing if there is none.\<close>

section \<open>The inverse map\<close>

lemma outx2minnaivex_slots:
  assumes "MinBleps_init nr orr s r c = Inr t"
  shows "length (outx2minnaivex t) = nat orr"
    and "length (naivex2outx t) = nat nr"
    and "n < nat nr \<Longrightarrow> \<exists>k. py_index (nat orr) (naivex2outx t ! n) = Inr k"
    and "k < nat orr \<Longrightarrow>
           outx2minnaivex t ! k =
             (case find (\<lambda>n. py_index (nat orr) (naivex2outx t ! n) = Inr k) [0..<nat nr] of
                None \<Rightarrow> None | Some n \<Rightarrow> Some (wrap32 (int n)))"
proof -
  from MinBleps_init_InrD[OF assms]
  have fill: "fill_outx2minnaivex (naivex2outx t) (rev [0..<nat nr]) (replicate (nat orr) None)
                = Inr (outx2minnaivex t)"
    and n2o: "naivex2outx t = outx_of (nearest_of nr orr) s"
    by auto
  show "length (outx2minnaivex t) = nat orr"
    using fill_outx2minnaivex_length[OF fill] by simp
  show "length (naivex2outx t) = nat nr" by (simp add: n2o)
  show "\<exists>k. py_index (nat orr) (naivex2outx t ! n) = Inr k" if "n < nat nr"
    using fill_outx2minnaivex_valid[OF fill, of n] that by simp
  show "outx2minnaivex t ! k =
             (case find (\<lambda>n. py_index (nat orr) (naivex2outx t ! n) = Inr k) [0..<nat nr] of
                None \<Rightarrow> None | Some n \<Rightarrow> Some (wrap32 (int n)))" if "k < nat orr"
    using fill_outx2minnaivex_nth[OF fill, of k] that by (simp split: option.splits)
qed

lemma outx2minnaivex_first:
  assumes "MinBleps_init nr orr s r c = Inr t" "n < nat nr"
    and "py_index (nat orr) (naivex2outx t ! n) = Inr k"
  shows "\<exists>m. outx2minnaivex t ! k = Some (wrap32 (int m)) \<and> m \<le> n
           \<and> py_index (nat orr) (naivex2outx t ! m) = Inr k
           \<and> (\<forall>j<m. py_index (nat orr) (naivex2outx t ! j) \<noteq> Inr k)"
proof -
  let ?P = "\<lambda>n. py_index (nat orr) (naivex2outx t ! n) = Inr k"
  have k: "k < nat orr" using assms(3) by (rule py_index_less)
  have "find ?P [0..<nat nr] \<noteq> None"
    using assms(2,3) by (auto simp: find_upt_None)
  then obtain m where m: "find ?P [0..<nat nr] = Some m" by auto
  then have mm: "m < nat nr" "?P m" "\<forall>j<m. \<not> ?P j"
    by (auto simp: find_upt_least)
  have "m \<le> n" using mm(3) assms(3) by (meson not_le)
  moreover have "outx2minnaivex t ! k = Some (wrap32 (int m))"
    using outx2minnaivex_slots(4)[OF assms(1) k] m by simp
  ultimately show ?thesis using mm by blast
qed

lemma overflow_table_facts:
  "\<exists>t. create 65537 32768 None r c = Inr t
       \<and> length (naivex2outx t) = 65537 \<and> length (outx2minnaivex t) = 32768
       \<and> naivex2outx t ! 65536 = - 32768 \<and> naivex2outx t ! 0 = 0
       \<and> outx2minnaivex t ! 0 = Some 0"
proof -
  obtain t where t: "create 65537 32768 None r c = Inr t"
    "MinBleps_init 65537 32768 65537 r c = Inr t"
    using overflow_table by blast
  from MinBleps_init_InrD[OF t(2)]
  have n2o: "naivex2outx t = outx_of (nearest_of 65537 32768) 65537" by auto
  have a: "naivex2outx t ! 65536 = - 32768" by (simp add: n2o outx_at_overflow)
  have b: "naivex2outx t ! 0 = 0"
    using outx_range_overflow(3)[of 0] by (simp add: n2o)
  have "py_index (nat 32768) (naivex2outx t ! 0) = Inr 0" by (simp add: b py_index_def)
  from outx2minnaivex_first[OF t(2) _ this]
  have c: "outx2minnaivex t ! 0 = Some 0" by (auto simp: wrap32_def)
  show ?thesis
    using t(1) a b c outx2minnaivex_slots(1,2)[OF t(2)] by auto
qed

lemma index_fits:
  assumes "0 < nr" "0 < orr" "(nr - 1) * (orr div gcd nr orr) < 2147483648" "m < nat nr"
  shows "wrap32 (int m) = int m"
proof -
  have "(nr - 1) * 1 \<le> (nr - 1) * (orr div gcd nr orr)"
    using rates_gcd(3)[OF assms(1,2)] assms(1) by (intro mult_left_mono) simp_all
  then have "int m < 2147483648" using assms(3,4) by simp
  then show ?thesis by (intro wrap32_id) simp_all
qed

lemma smallest_index:
  assumes "0 < nr" "0 < orr" "(nr - 1) * (orr div gcd nr orr) < 2147483648"
    and t: "MinBleps_init nr orr (nr div gcd nr orr) r c = Inr t"
    and n: "n < nat nr"
  shows "\<exists>m<nat nr. np_read (outx2minnaivex t) (naivex2outx t ! n) = Inr (int m)
                \<and> naivex2outx t ! m = naivex2outx t ! n
                \<and> (\<forall>j<nat nr. naivex2outx t ! j = naivex2outx t ! n \<longrightarrow> m \<le> j)"
proof -
  let ?d = "orr div gcd nr orr" and ?s = "nr div gcd nr orr"
  note rg = rates_gcd[OF assms(1,2)]
  from MinBleps_init_InrD[OF t]
  have n2o: "naivex2outx t = outx_of (nearest_of nr orr) ?s" by auto
  have val: "0 \<le> naivex2outx t ! n \<and> naivex2outx t ! n < int (nat orr)" if "n < nat nr" for n
    using outx_exact[OF assms(2,3) that rg(2)] outx_below_outrate[OF assms(1,2) that] assms(2)
    by (simp add: n2o)
  have slot: "py_index (nat orr) (naivex2outx t ! n) = Inr (nat (naivex2outx t ! n))"
    if "n < nat nr" for n
    using val[OF that] by (simp add: py_index_def)
  let ?k = "nat (naivex2outx t ! n)"
  from outx2minnaivex_first[OF t n slot[OF n]]
  obtain m where m: "outx2minnaivex t ! ?k = Some (wrap32 (int m))" "m \<le> n"
    "py_index (nat orr) (naivex2outx t ! m) = Inr ?k"
    "\<forall>j<m. py_index (nat orr) (naivex2outx t ! j) \<noteq> Inr ?k"
    by blast
  have mn: "m < nat nr" using m(2) n by simp
  have "nat (naivex2outx t ! m) = nat (naivex2outx t ! n)"
    using m(3) slot[OF mn] by simp
  then have eq: "naivex2outx t ! m = naivex2outx t ! n"
    using val[OF mn] val[OF n] by linarith
  have rd: "np_read (outx2minnaivex t) (naivex2outx t ! n) = Inr (int m)"
    using slot[OF n] m(1) index_fits[OF assms(1,2,3) mn]
    by (simp add: np_read_def outx2minnaivex_slots(1)[OF t])
  have least: "\<forall>j<nat nr. naivex2outx t ! j = naivex2outx t ! n \<longrightarrow> m \<le> j"
  proof (intro allI impI)
    fix j assume j: "j < nat nr" "naivex2outx t ! j = naivex2outx t ! n"
    have "py_index (nat orr) (naivex2outx t ! j) = Inr ?k" using slot[OF j(1)] j(2) by simp
    then show "m \<le> j" using m(4) by (meson not_le)
  qed
  show ?thesis using mn rd eq least by blast
qed

lemma gcd_6_4: "gcd (6::int) 4 = 2"
  by (simp add: gcd_red_int[of 6 4] gcd_red_int[of 4 2])

text \<open>
  Claim C5, as amended. While \<open>(naiverate - 1) * dualscale < 2^31\<close>, every output index
  \<open>o = naivex2outx[n]\<close> has in \<open>outx2minnaivex[o]\<close> the smallest naive index \<open>m\<close> with
  \<open>naivex2outx[m] = o\<close>.
\<close>

theorem outx2minnaivex_smallest:
  assumes "0 < nr" "0 < orr" "(nr - 1) * (orr div gcd nr orr) < 2147483648"
    and "scaleornone = None \<or> scaleornone = Some (nr div gcd nr orr)"
  shows "\<exists>t. create nr orr scaleornone r c = Inr t
           \<and> (\<forall>n<nat nr. \<exists>m<nat nr.
                  np_read (outx2minnaivex t) (naivex2outx t ! n) = Inr (int m)
                \<and> naivex2outx t ! m = naivex2outx t ! n
                \<and> (\<forall>j<nat nr. naivex2outx t ! j = naivex2outx t ! n \<longrightarrow> m \<le> j))"
proof -
  obtain t where t: "create nr orr scaleornone r c = Inr t"
    "MinBleps_init nr orr (nr div gcd nr orr) r c = Inr t"
    using create_ideal_succeeds[OF assms] by blast
  show ?thesis
    using t(1) smallest_index[OF assms(1,2,3) t(2)] by blast
qed

theorem outx2minnaivex_smallest_witness:
  "(0::int) < 6 \<and> (0::int) < 4 \<and> (6 - 1) * (4 div gcd 6 4) < (2147483648::int)
   \<and> (\<exists>t. create 6 4 None 1 (\<lambda>k. 0) = Inr t
          \<and> naivex2outx t ! 0 = 0 \<and> naivex2outx t ! 1 = 0
          \<and> np_read (outx2minnaivex t) (naivex2outx t ! 1) = Inr 0)"
proof -
  have b: "(6 - 1) * (4 div gcd 6 4) < (2147483648::int)" by (simp add: gcd_6_4)
  from outx2minnaivex_smallest[of 6 4 None 1 "\<lambda>k. 0", OF _ _ b]
  obtain t where t: "create 6 4 None 1 (\<lambda>k. 0) = Inr t"
    and all: "\<forall>n<nat 6. \<exists>m<nat 6.
                  np_read (outx2minnaivex t) (naivex2outx t ! n) = Inr (int m)
                \<and> naivex2outx t ! m = naivex2outx t ! n
                \<and> (\<forall>j<nat 6. naivex2outx t ! j = naivex2outx t ! n \<longrightarrow> m \<le> j)"
    by auto
  have "MinBleps_init 6 4 (6 div gcd 6 4) 1 (\<lambda>k. 0) = Inr t"
    using t create_ideal[of 6 4 None 1 "\<lambda>k. 0"] by simp
  from MinBleps_init_InrD[OF this]
  have n2o: "naivex2outx t = outx_of (nearest_of 6 4) (6 div gcd 6 4)" by auto
  have v0: "naivex2outx t ! 0 = 0"
    using outx_exact(1)[of 4 6 0 "6 div gcd 6 4", OF _ b] by (simp add: n2o gcd_6_4)
  have v1: "naivex2outx t ! 1 = 0"
    using outx_exact(1)[of 4 6 1 "6 div gcd 6 4", OF _ b] by (simp add: n2o gcd_6_4)
  have "(1::nat) < nat 6" by simp
  with all obtain m where m: "m < nat 6"
    "np_read (outx2minnaivex t) (naivex2outx t ! 1) = Inr (int m)"
    "\<forall>j<nat 6. naivex2outx t ! j = naivex2outx t ! 1 \<longrightarrow> m \<le> j"
    by blast
  have "m = 0" using m(3)[rule_format, of 0] v0 v1 by simp
  then show ?thesis using t b m(2) v0 v1 by auto
qed

text \<open>
  Claim C5 as stated fails where a product wraps around. For \<open>naiverate = 65537\<close> and
  \<open>outrate = 32768\<close> the output index \<open>- 32768\<close> is \<open>naivex2outx[65536]\<close>, and of no other
  naive index; as an index it designates element \<open>0\<close> of \<open>outx2minnaivex\<close>, which holds \<open>0\<close>,
  and \<open>naivex2outx[0]\<close> is \<open>0\<close>.
\<close>

theorem outx2minnaivex_smallest_counterexample:
  "and_then (create 65537 32768 None 40 (\<lambda>k. 0)) (\<lambda>t. np_get (naivex2outx t) 65536)
     = Inr (- 32768)
   \<and> and_then (create 65537 32768 None 40 (\<lambda>k. 0))
         (\<lambda>t. np_read (outx2minnaivex t) (- 32768)) = Inr 0
   \<and> and_then (create 65537 32768 None 40 (\<lambda>k. 0)) (\<lambda>t. np_get (naivex2outx t) 0)
     = Inr 0"
proof -
  obtain t where t: "create 65537 32768 None 40 (\<lambda>k. 0) = Inr t"
    "length (naivex2outx t) = 65537" "length (outx2minnaivex t) = 32768"
    "naivex2outx t ! 65536 = - 32768" "naivex2outx t ! 0 = 0"
    "outx2minnaivex t ! 0 = Some 0"
    using overflow_table_facts by blast
  have g1: "np_get (naivex2outx t) 65536 = Inr (- 32768)"
    unfolding np_get_def py_index_def t(2) using t(4) by simp
  have g2: "np_read (outx2minnaivex t) (- 32768) = Inr 0"
    unfolding np_read_def py_index_def t(3) using t(6) by simp
  have g3: "np_get (naivex2outx t) 0 = Inr 0"
    unfolding np_get_def py_index_def t(2) using t(5) by simp
  show ?thesis
    using t(1) g1 g2 g3 by simp
qed

text \<open>
  Claim C3, as amended. While \<open>(naiverate - 1) * dualscale < 2^31\<close>, for every naive index
  \<open>n\<close> the look-ups \<open>naivex2outx[outx2minnaivex[naivex2outx[n]]]\<close> succeed and give
  \<open>naivex2outx[n]\<close>.
\<close>

theorem index_maps_consistent:
  assumes "0 < nr" "0 < orr" "(nr - 1) * (orr div gcd nr orr) < 2147483648"
    and "scaleornone = None \<or> scaleornone = Some (nr div gcd nr orr)"
  shows "\<exists>t. create nr orr scaleornone r c = Inr t
           \<and> (\<forall>n<nat nr.
                  np_get (naivex2outx t) (int n) = Inr (naivex2outx t ! n)
                \<and> and_then (np_get (naivex2outx t) (int n))
                      (\<lambda>a. and_then (np_read (outx2minnaivex t) a)
                         (\<lambda>b. np_get (naivex2outx t) b))
                    = Inr (naivex2outx t ! n))"
proof -
  obtain t where t: "create nr orr scaleornone r c = Inr t"
    "MinBleps_init nr orr (nr div gcd nr orr) r c = Inr t"
    using create_ideal_succeeds[OF assms] by blast
  have len: "length (naivex2outx t) = nat nr" by (rule outx2minnaivex_slots(2)[OF t(2)])
  have get: "np_get (naivex2outx t) (int j) = Inr (naivex2outx t ! j)" if "j < nat nr" for j
  proof -
    have "0 \<le> int j \<and> int j < int (nat nr)" using that by linarith
    then show ?thesis by (simp add: np_get_def py_index_def len)
  qed
  have each: "np_get (naivex2outx t) (int n) = Inr (naivex2outx t ! n)
                \<and> and_then (np_get (naivex2outx t) (int n))
                      (\<lambda>a. and_then (np_read (outx2minnaivex t) a)
                         (\<lambda>b. np_get (naivex2outx t) b))
                    = Inr (naivex2outx t ! n)" if n: "n < nat nr" for n
  proof -
    from smallest_index[OF assms(1,2,3) t(2) n]
    obtain m where m: "m < nat nr"
      "np_read (outx2minnaivex t) (naivex2outx t ! n) = Inr (int m)"
      "naivex2outx t ! m = naivex2outx t ! n"
      by blast
    show ?thesis using get[OF n] get[OF m(1)] m(2,3) by simp
  qed
  show ?thesis using t(1) each by blast
qed

theorem index_maps_consistent_witness:
  "(0::int) < 6 \<and> (0::int) < 4 \<and> (6 - 1) * (4 div gcd 6 4) < (2147483648::int)
   \<and> (\<exists>t. create 6 4 (Some 3) 1 (\<lambda>k. 0) = Inr t
          \<and> and_then (np_get (naivex2outx t) 4)
                (\<lambda>a. and_then (np_read (outx2minnaivex t) a) (\<lambda>b. np_get (naivex2outx t) b))
              = Inr (naivex2outx t ! 4))"
proof -
  have b: "(6 - 1) * (4 div gcd 6 4) < (2147483648::int)" by (simp add: gcd_6_4)
  have s: "Some 3 = None \<or> Some (3::int) = Some (6 div gcd 6 4)" by (simp add: gcd_6_4)
  from index_maps_consistent[of 6 4 "Some 3" 1 "\<lambda>k. 0", OF _ _ b s]
  obtain t where t: "create 6 4 (Some 3) 1 (\<lambda>k. 0) = Inr t"
    and all: "\<forall>n<nat 6.
                  np_get (naivex2outx t) (int n) = Inr (naivex2outx t ! n)
                \<and> and_then (np_get (naivex2outx t) (int n))
                      (\<lambda>a. and_then (np_read (outx2minnaivex t) a)
                         (\<lambda>b. np_get (naivex2outx t) b))
                    = Inr (naivex2outx t ! n)"
    by auto
  have "(4::nat) < nat 6" by simp
  with all have "and_then (np_get (naivex2outx t) (int 4))
                      (\<lambda>a. and_then (np_read (outx2minnaivex t) a)
                         (\<lambda>b. np_get (naivex2outx t) b))
                    = Inr (naivex2outx t ! 4)"
    by blast
  then show ?thesis using t b by auto
qed

text \<open>
  Claim C3 as stated fails where a product wraps around. For \<open>naiverate = 65537\<close> and
  \<open>outrate = 32768\<close>, \<open>naivex2outx[65536]\<close> is \<open>- 32768\<close>, while
  \<open>naivex2outx[outx2minnaivex[- 32768]]\<close> is \<open>naivex2outx[0] = 0\<close>.
\<close>

theorem index_maps_consistent_counterexample:
  "and_then (create 65537 32768 None 40 (\<lambda>k. 0)) (\<lambda>t. np_get (naivex2outx t) 65536)
     = Inr (- 32768)
   \<and> and_then (create 65537 32768 None 40 (\<lambda>k. 0))
         (\<lambda>t. and_then (np_get (naivex2outx t) 65536)
                (\<lambda>a. and_then (np_read (outx2minnaivex t) a)
                   (\<lambda>b. np_get (naivex2outx t) b)))
       = Inr 0"
proof -
  obtain t where t: "create 65537 32768 None 40 (\<lambda>k. 0) = Inr t"
    "length (naivex2outx t) = 65537" "length (outx2minnaivex t) = 32768"
    "naivex2outx t ! 65536 = - 32768" "naivex2outx t ! 0 = 0"
    "outx2minnaivex t ! 0 = Some 0"
    using overflow_table_facts by blast
  have g1: "np_get (naivex2outx t) 65536 = Inr (- 32768)"
    unfolding np_get_def py_index_def t(2) using t(4) by simp
  have g2: "np_read (outx2minnaivex t) (- 32768) = Inr 0"
    unfolding np_read_def py_index_def t(3) using t(6) by simp
  have g3: "np_get (naivex2outx t) 0 = Inr 0"
    unfolding np_get_def py_index_def t(2) using t(5) by simp
  show ?thesis
    using t(1) g1 g2 g3 by simp
qed

section \<open>getoutcount and getminnaiven\<close>






section \<open>The step table and its phases\<close>

lemma pad_ones_least:
  fixes s n j :: int
  assumes "1 \<le> s" "j < (- n) mod s" "0 \<le> j"
  shows "\<not> s dvd n + j"
proof
  assume d: "s dvd n + j"
  let ?k = "(- n) mod s"
  have k: "0 \<le> ?k" "?k < s" using assms(1) by simp_all
  have "s dvd n + ?k" by (rule dvd_add_neg_mod)
  then have "s dvd (n + ?k) - (n + j)" using d by (rule dvd_diff)
  then have "s dvd ?k - j" by simp
  moreover have "0 < ?k - j" "?k - j < s" using assms(2,3) k by linarith+
  ultimately show False using zdvd_not_zless by blast
qed

lemma demultiplexed_phases:
  assumes t: "MinBleps_init nr orr s r c = Inr t"
  shows "int (length (minblep t)) = s * mixinsize t"
    and "length (demultiplexed t) = length (minblep t)"
    and "0 \<le> mixinsize t"
    and "i < nat s \<Longrightarrow> k < nat (mixinsize t) \<Longrightarrow>
           demultiplexed t ! (i * nat (mixinsize t) + k) = Some (minblep t ! (i + k * nat s))"
proof -
  from MinBleps_init_InrD[OF t] obtain l where l: "kernel_layout r s = Some l" "1 \<le> s"
    "minblep t = pad_minblep s (map c [0..<bli_length l])"
    "mixinsize t = int (length (minblep t)) div s"
    "demultiplex (minblep t) (nat s) (nat (mixinsize t)) [0..<nat s]
          (replicate (length (minblep t)) None) = Inr (demultiplexed t)"
    by auto
  let ?m = "nat (mixinsize t)"
  have len: "length (minblep t) = nat s * ?m"
    unfolding l(4) l(3) by (rule length_pad_split[OF l(2)])
  show m0: "0 \<le> mixinsize t" unfolding l(4) using l(2) by (simp add: pos_imp_zdiv_nonneg_iff)
  show "int (length (minblep t)) = s * mixinsize t"
  proof -
    have "int (length (minblep t)) = int (nat s) * int ?m" using len by simp
    then show ?thesis using l(2) m0 by simp
  qed
  have "length (replicate (length (minblep t)) (None::real option)) = nat s * ?m"
    using len by simp
  from demultiplex_phases[OF len this, of "nat s"] l(5)
  have dm: "length (demultiplexed t) = nat s * ?m"
    "\<forall>i<nat s. \<forall>k<?m. demultiplexed t ! (i * ?m + k) = Some (minblep t ! (i + k * nat s))"
    by auto
  show "length (demultiplexed t) = length (minblep t)" using dm(1) len by simp
  show "demultiplexed t ! (i * ?m + k) = Some (minblep t ! (i + k * nat s))"
    if "i < nat s" "k < ?m"
    using dm(2) that by blast
qed

text \<open>
  Claim C8. In a table that construction returned, \<open>minblep\<close> is the cumulative sum with
  \<open>scale - 1\<close> zeros in front and ones behind, as few as make the length a multiple of
  \<open>scale\<close>; \<open>mixinsize\<close> is that length over \<open>scale\<close>; and for each phase \<open>i\<close> below \<open>scale\<close>
  the block \<open>demultiplexed[i * mixinsize : (i + 1) * mixinsize]\<close> is
  \<open>minblep[i], minblep[i + scale], minblep[i + 2 * scale], ...\<close>.
\<close>

theorem minblep_padded_demultiplexed:
  assumes t: "MinBleps_init nr orr s r c = Inr t"
  shows "\<exists>l ones. kernel_layout r s = Some l
           \<and> minblep t = replicate (nat (s - 1)) 0 @ map c [0..<bli_length l] @ replicate ones 1
           \<and> s dvd int (length (minblep t))
           \<and> (\<forall>j<ones. \<not> s dvd int (nat (s - 1) + bli_length l + j))
           \<and> mixinsize t = int (length (minblep t)) div s
           \<and> int (length (minblep t)) = s * mixinsize t
           \<and> length (demultiplexed t) = length (minblep t)
           \<and> (\<forall>i<nat s.
                 take (nat (mixinsize t)) (drop (i * nat (mixinsize t)) (demultiplexed t))
                   = map (\<lambda>k. Some (minblep t ! (i + k * nat s))) [0..<nat (mixinsize t)])"
proof -
  from MinBleps_init_InrD[OF t] obtain l where l: "kernel_layout r s = Some l" "1 \<le> s"
    "minblep t = pad_minblep s (map c [0..<bli_length l])"
    "mixinsize t = int (length (minblep t)) div s"
    by auto
  let ?n = "int (nat (s - 1) + bli_length l)"
  let ?ones = "nat ((- ?n) mod s)"
  let ?m = "nat (mixinsize t)"
  note dp = demultiplexed_phases[OF t]
  have mb: "minblep t = replicate (nat (s - 1)) 0 @ map c [0..<bli_length l] @ replicate ?ones 1"
    by (simp add: l(3) pad_minblep_def Let_def)
  have dv: "s dvd int (length (minblep t))"
    unfolding l(3) by (rule length_pad_minblep(1)[OF l(2)])
  have least: "\<forall>j<?ones. \<not> s dvd int (nat (s - 1) + bli_length l + j)"
  proof (intro allI impI)
    fix j assume "j < ?ones"
    then have "int j < (- ?n) mod s" by simp
    from pad_ones_least[OF l(2) this] show "\<not> s dvd int (nat (s - 1) + bli_length l + j)"
      by simp
  qed
  have blocks: "\<forall>i<nat s. take ?m (drop (i * ?m) (demultiplexed t))
                   = map (\<lambda>k. Some (minblep t ! (i + k * nat s))) [0..<?m]"
  proof (intro allI impI)
    fix i assume i: "i < nat s"
    have "(i + 1) * ?m \<le> nat s * ?m" using i by (intro mult_le_mono1) simp
    moreover have "length (demultiplexed t) = nat s * ?m"
    proof -
      have "int (length (demultiplexed t)) = int (nat s) * int ?m"
        using dp(1,2,3) l(2) by simp
      then show ?thesis by (metis of_nat_eq_iff of_nat_mult)
    qed
    ultimately have le: "i * ?m + ?m \<le> length (demultiplexed t)" by simp
    show "take ?m (drop (i * ?m) (demultiplexed t))
            = map (\<lambda>k. Some (minblep t ! (i + k * nat s))) [0..<?m]"
    proof (rule nth_equalityI)
      show "length (take ?m (drop (i * ?m) (demultiplexed t)))
              = length (map (\<lambda>k. Some (minblep t ! (i + k * nat s))) [0..<?m])"
        using le by simp
    next
      fix k assume "k < length (take ?m (drop (i * ?m) (demultiplexed t)))"
      then have k: "k < ?m" by simp
      have "take ?m (drop (i * ?m) (demultiplexed t)) ! k = demultiplexed t ! (i * ?m + k)"
        using k le by simp
      also have "\<dots> = Some (minblep t ! (i + k * nat s))" by (rule dp(4)[OF i k])
      finally show "take ?m (drop (i * ?m) (demultiplexed t)) ! k
                      = map (\<lambda>k. Some (minblep t ! (i + k * nat s))) [0..<?m] ! k"
        using k by simp
    qed
  qed
  show ?thesis
    using l(1) mb dv least l(4) dp(1,2) blocks by blast
qed


lemma kernel_layout_1_2:
  "kernel_layout 1 2 = Some \<lparr>order = 2, kernelsize = 5, fftsize = 8, midpoint = 4,
                              rpad = 1, lpad = 2\<rparr>"
  by (simp add: kernel_layout_def Let_def grow_size_step grow_size_stop)

lemma upt_0_5: "[0..<5] = [0, 1, 2, 3, 4]"
  by code_simp

lemma upt_0_8: "[0..<8] = [0, 1, 2, 3, 4, 5, 6, 7]"
  by code_simp

theorem minblep_padded_demultiplexed_witness:
  "\<exists>t. MinBleps_init 4 6 2 1 real = Inr t
       \<and> minblep t = [0, 0, 1, 2, 3, 4, 5, 6, 7, 1]
       \<and> mixinsize t = 5
       \<and> take 5 (drop 0 (demultiplexed t)) = [Some 0, Some 1, Some 3, Some 5, Some 7]
       \<and> take 5 (drop 5 (demultiplexed t)) = [Some 0, Some 2, Some 4, Some 6, Some 1]"
proof -
  have "(4 - 1) * (6 div gcd 4 6) < (2147483648::int)" by (simp add: gcd_4_6)
  from create_succeeds[of 4 6 1 real, OF _ _ this]
  obtain t where t: "MinBleps_init 4 6 2 1 real = Inr t"
    by (auto simp: gcd_4_6)
  from minblep_padded_demultiplexed[OF t]
  obtain l ones where l: "kernel_layout 1 2 = Some l"
    and mb: "minblep t = replicate (nat (2 - 1)) 0 @ map real [0..<bli_length l] @ replicate ones 1"
    and dv: "2 dvd int (length (minblep t))"
    and least: "\<forall>j<ones. \<not> 2 dvd int (nat (2 - 1) + bli_length l + j)"
    and ms: "mixinsize t = int (length (minblep t)) div 2"
    and blocks: "\<forall>i<nat 2.
                 take (nat (mixinsize t)) (drop (i * nat (mixinsize t)) (demultiplexed t))
                   = map (\<lambda>k. Some (minblep t ! (i + k * nat 2))) [0..<nat (mixinsize t)]"
    by blast
  have "l = \<lparr>order = 2, kernelsize = 5, fftsize = 8, midpoint = 4, rpad = 1, lpad = 2\<rparr>"
    using l by (simp add: kernel_layout_1_2)
  then have bl: "bli_length l = 8" by (simp add: bli_length_def)
  have len: "length (minblep t) = 9 + ones" by (simp add: mb bl)
  have "ones = 1"
  proof -
    have "odd ones" using dv len by simp
    then have "\<not> ones = 0" by (rule contrapos_pn) simp
    moreover have "\<not> 1 < ones" using least[rule_format, of 1] by (auto simp: bl)
    ultimately show ?thesis by linarith
  qed
  then have mb': "minblep t = [0, 0, 1, 2, 3, 4, 5, 6, 7, 1]"
    by (simp add: mb bl upt_0_8)
  have ms': "mixinsize t = 5" by (simp add: ms mb')
  have b0: "take 5 (drop 0 (demultiplexed t)) = [Some 0, Some 1, Some 3, Some 5, Some 7]"
    using blocks[rule_format, of 0] by (simp add: ms' mb' upt_0_5)
  have b1: "take 5 (drop 5 (demultiplexed t)) = [Some 0, Some 2, Some 4, Some 6, Some 1]"
    using blocks[rule_format, of 1] by (simp add: ms' mb' upt_0_5)
  show ?thesis using t mb' ms' b0 b1 by blast
qed

section \<open>Equal rates\<close>

text \<open>
  Claim C10, as amended. When \<open>naiverate = outrate\<close> and the rate is at most \<open>2^31\<close> (every
  naive index fits a 32-bit element), the resolved scale is 1, \<open>naivex2outx[i] = i\<close> for every
  \<open>i\<close> in \<open>[0, naiverate)\<close>, and \<open>demultiplexed\<close> is one phase that equals \<open>minblep\<close>.
\<close>

theorem equal_rates_identity:
  assumes "0 < rate" "rate \<le> 2147483648"
  shows "resolvescale rate rate None = Inr 1
         \<and> (\<exists>t. create rate rate None r c = Inr t
                \<and> length (naivex2outx t) = nat rate
                \<and> (\<forall>i<nat rate. naivex2outx t ! i = int i)
                \<and> mixinsize t = int (length (minblep t))
                \<and> demultiplexed t = map Some (minblep t))"
proof -
  have g: "gcd rate rate = rate" using assms(1) by simp
  have s1: "rate div gcd rate rate = 1" using assms(1) by (simp add: g)
  have res: "resolvescale rate rate None = Inr 1"
    using assms(1) by (simp add: resolvescale_def g)
  have b: "(rate - 1) * (rate div gcd rate rate) < 2147483648"
    unfolding s1 using assms(2) by simp
  obtain t where t: "create rate rate None r c = Inr t" "MinBleps_init rate rate 1 r c = Inr t"
    using create_succeeds[OF assms(1) assms(1) b, of r c] unfolding s1 by blast
  from MinBleps_init_InrD[OF t(2)]
  have n2o: "naivex2outx t = outx_of (nearest_of rate rate) 1" by auto
  have len: "length (naivex2outx t) = nat rate" by (simp add: n2o)
  have ident: "\<forall>i<nat rate. naivex2outx t ! i = int i"
  proof (intro allI impI)
    fix i assume i: "i < nat rate"
    have "outx_of (nearest_of rate rate) 1 ! i = int i * 1 div 1"
      using outx_exact(1)[OF assms(1) b i, of 1, unfolded s1] by simp
    then show "naivex2outx t ! i = int i"
      by (simp add: n2o)
  qed
  note dp = demultiplexed_phases[OF t(2)]
  have ms: "mixinsize t = int (length (minblep t))" using dp(1) by simp
  have dm: "demultiplexed t = map Some (minblep t)"
  proof (rule nth_equalityI)
    show "length (demultiplexed t) = length (map Some (minblep t))" using dp(2) by simp
  next
    fix k assume "k < length (demultiplexed t)"
    then have k: "k < nat (mixinsize t)" using dp(2) ms by simp
    have "demultiplexed t ! (0 * nat (mixinsize t) + k) = Some (minblep t ! (0 + k * nat 1))"
      by (rule dp(4)[OF _ k]) simp
    then show "demultiplexed t ! k = map Some (minblep t) ! k"
      using k ms by simp
  qed
  show ?thesis using res t(1) len ident ms dm by blast
qed

theorem equal_rates_identity_witness:
  "(0::int) < 4 \<and> (4::int) \<le> 2147483648 \<and> resolvescale 4 4 None = Inr 1
   \<and> (\<exists>t. create 4 4 None 40 real = Inr t
          \<and> naivex2outx t ! 3 = 3
          \<and> mixinsize t = int (length (minblep t))
          \<and> demultiplexed t = map Some (minblep t))"
proof -
  from equal_rates_identity[of 4 40 real]
  obtain t where t: "create 4 4 None 40 real = Inr t"
    and ident: "\<forall>i<nat 4. naivex2outx t ! i = int i"
    and rest: "mixinsize t = int (length (minblep t))" "demultiplexed t = map Some (minblep t)"
    and res: "resolvescale 4 4 None = Inr 1"
    by auto
  have "naivex2outx t ! 3 = 3" using ident[rule_format, of 3] by simp
  then show ?thesis using t rest res by auto
qed

text \<open>
  Claim C10 as stated fails for a rate above \<open>2^31\<close>: with \<open>naiverate = outrate = 2^31 + 1\<close>
  construction succeeds and \<open>naivex2outx[2^31]\<close> is \<open>- 2^31\<close>.
\<close>

theorem equal_rates_identity_counterexample:
  "and_then (create 2147483649 2147483649 None 40 (\<lambda>k. 0))
     (\<lambda>t. np_get (naivex2outx t) 2147483648) = Inr (- 2147483648)"
proof -
  let ?N = "2147483649 :: int"
  have g: "gcd ?N ?N = ?N" by simp
  have v: "outx_of (nearest_of ?N ?N) 1 ! n = wrap32 (int n)" if "n < nat ?N" for n
    using that by (simp add: nth_outx_of nth_nearest_of floordiv32_def wrap32_range wrap32_id)
  have idx: "\<forall>n<nat ?N. \<exists>k. py_index (nat ?N) (outx_of (nearest_of ?N ?N) 1 ! n) = Inr k"
  proof (intro allI impI)
    fix n assume n: "n < nat ?N"
    show "\<exists>k. py_index (nat ?N) (outx_of (nearest_of ?N ?N) 1 ! n) = Inr k"
      unfolding v[OF n] using wrap32_range[of "int n"] by (simp add: py_index_def)
  qed
  have "\<exists>t. MinBleps_init ?N ?N 1 40 (\<lambda>k. 0) = Inr t"
    by (rule MinBleps_init_succeeds[OF _ _ _ idx]) simp_all
  then obtain t where t: "MinBleps_init ?N ?N 1 40 (\<lambda>k. 0) = Inr t" by blast
  have c: "create ?N ?N None 40 (\<lambda>k. 0) = Inr t"
    using create_ideal[of ?N ?N None 40 "\<lambda>k. 0"] t by simp
  from MinBleps_init_InrD[OF t]
  have n2o: "naivex2outx t = outx_of (nearest_of ?N ?N) 1" by auto
  have "naivex2outx t ! 2147483648 = - 2147483648"
    unfolding n2o using v[of 2147483648] by (simp add: wrap32_def)
  moreover have "length (naivex2outx t) = 2147483649" by (simp add: n2o)
  ultimately have "np_get (naivex2outx t) 2147483648 = Inr (- 2147483648)"
    by (simp add: np_get_def py_index_def)
  then show ?thesis using c by simp
qed

section \<open>No check of the dimensions\<close>

lemma MinBleps_init_succeeds_iff:
  "(\<exists>t. MinBleps_init nr orr s r c = Inr t) \<longleftrightarrow>
     1 \<le> s \<and> gcd nr orr \<noteq> 0 \<and> 0 \<le> orr
     \<and> (\<forall>n<nat nr. \<exists>k. py_index (nat orr) (outx_of (nearest_of nr orr) s ! n) = Inr k)"
proof
  assume "\<exists>t. MinBleps_init nr orr s r c = Inr t"
  then obtain t where t: "MinBleps_init nr orr s r c = Inr t" by blast
  from MinBleps_init_InrD[OF t]
  have a: "1 \<le> s" "gcd nr orr \<noteq> 0" "0 \<le> orr"
    and n2o: "naivex2outx t = outx_of (nearest_of nr orr) s"
    by auto
  show "1 \<le> s \<and> gcd nr orr \<noteq> 0 \<and> 0 \<le> orr
     \<and> (\<forall>n<nat nr. \<exists>k. py_index (nat orr) (outx_of (nearest_of nr orr) s ! n) = Inr k)"
    using a outx2minnaivex_slots(3)[OF t] unfolding n2o by blast
next
  assume "1 \<le> s \<and> gcd nr orr \<noteq> 0 \<and> 0 \<le> orr
     \<and> (\<forall>n<nat nr. \<exists>k. py_index (nat orr) (outx_of (nearest_of nr orr) s ! n) = Inr k)"
  then show "\<exists>t. MinBleps_init nr orr s r c = Inr t"
    using MinBleps_init_succeeds by blast
qed

lemma isl_iff_no_result: "isl x \<longleftrightarrow> \<not> (\<exists>t. x = Inr t)"
  by (cases x) simp_all

text \<open>
  Claim C9, as amended. Construction makes no check of \<open>order\<close>, \<open>kernelsize\<close> or \<open>size\<close>: for
  every rounded value and scale the dimensions are computed, \<open>size\<close> being the least power
  of two that is at least \<open>kernelsize\<close> (so positive); \<open>order\<close> and \<open>kernelsize\<close> are positive
  when the rounded value and the scale are; and whether construction fails does not depend
  on the rounded value or on the samples.
\<close>

theorem construction_unchecked:
  "(\<exists>l k. kernel_layout rounded scale = Some l
        \<and> order l = rounded * 2 \<and> kernelsize l = order l * scale + 1
        \<and> fftsize l = 2 ^ k \<and> kernelsize l \<le> fftsize l \<and> (\<forall>j<k. 2 ^ j < kernelsize l)
        \<and> (0 < rounded \<and> 0 < scale \<longrightarrow> 0 < order l \<and> 0 < kernelsize l))
   \<and> (isl (MinBleps_init nr orr scale rounded c) \<longleftrightarrow> isl (MinBleps_init nr orr scale rounded' c'))"
proof -
  obtain k where k: "kernel_layout rounded scale =
          Some \<lparr>order = rounded * 2, kernelsize = rounded * 2 * scale + 1, fftsize = 2 ^ k,
                midpoint = 2 ^ k div 2, rpad = (2 ^ k - (rounded * 2 * scale + 1)) div 2,
                lpad = 1 + (2 ^ k - (rounded * 2 * scale + 1)) div 2\<rparr>"
    "rounded * 2 * scale + 1 \<le> 2 ^ k" "\<forall>j<k. 2 ^ j < rounded * 2 * scale + 1"
    using kernel_layout_Some[of rounded scale] by blast
  have pos: "0 < rounded \<and> 0 < scale \<longrightarrow> 0 < rounded * 2 \<and> 0 < rounded * 2 * scale + 1"
  proof
    assume a: "0 < rounded \<and> 0 < scale"
    then have "0 < rounded * 2 * scale" by simp
    then show "0 < rounded * 2 \<and> 0 < rounded * 2 * scale + 1" using a by simp
  qed
  have first: "\<exists>l k. kernel_layout rounded scale = Some l
        \<and> order l = rounded * 2 \<and> kernelsize l = order l * scale + 1
        \<and> fftsize l = 2 ^ k \<and> kernelsize l \<le> fftsize l \<and> (\<forall>j<k. 2 ^ j < kernelsize l)
        \<and> (0 < rounded \<and> 0 < scale \<longrightarrow> 0 < order l \<and> 0 < kernelsize l)"
    using k pos by (intro exI[of _ "the (kernel_layout rounded scale)"] exI[of _ k]) simp
  have second: "isl (MinBleps_init nr orr scale rounded c)
                  \<longleftrightarrow> isl (MinBleps_init nr orr scale rounded' c')"
    unfolding isl_iff_no_result MinBleps_init_succeeds_iff ..
  show ?thesis using first second by blast
qed

lemma kernel_layout_40_2:
  "kernel_layout 40 2 = Some \<lparr>order = 80, kernelsize = 161, fftsize = 256, midpoint = 128,
                              rpad = 47, lpad = 48\<rparr>"
  by (simp add: kernel_layout_def Let_def grow_size_step grow_size_stop)

theorem construction_unchecked_witness:
  "(0::int) < 40 \<and> (0::int) < 2
   \<and> (\<exists>l. kernel_layout 40 2 = Some l \<and> order l = 80 \<and> kernelsize l = 161
          \<and> fftsize l = 256 \<and> 0 < order l \<and> 0 < kernelsize l)"
proof -
  from construction_unchecked[of 40 2 4 6 real 40 real]
  obtain l k where l: "kernel_layout 40 2 = Some l" "order l = 40 * 2"
    "kernelsize l = order l * 2 + 1"
    "0 < (40::int) \<and> 0 < (2::int) \<longrightarrow> 0 < order l \<and> 0 < kernelsize l"
    by blast
  have "fftsize l = 256" using l(1) by (auto simp: kernel_layout_40_2)
  then show ?thesis using l by simp
qed

text \<open>
  Claim C9 as stated fails: no error is raised for a non-positive \<open>order\<close> or \<open>kernelsize\<close>.
  With the rounded value 0 the order is 0, with the rounded value -1 the order is -2 and the
  kernel size -1, and construction returns a table in both cases.
\<close>

theorem construction_unchecked_counterexample:
  "kernel_layout 0 1 = Some \<lparr>order = 0, kernelsize = 1, fftsize = 1, midpoint = 0,
                             rpad = 0, lpad = 1\<rparr>
   \<and> \<not> isl (MinBleps_init 4 4 1 0 (\<lambda>k. 0))
   \<and> kernel_layout (- 1) 1 = Some \<lparr>order = - 2, kernelsize = - 1, fftsize = 1, midpoint = 0,
                                  rpad = 1, lpad = 2\<rparr>
   \<and> \<not> isl (MinBleps_init 4 4 1 (- 1) (\<lambda>k. 0))"
proof -
  have b: "(4 - 1) * (4 div gcd 4 4) < (2147483648::int)" by simp
  have ok: "\<exists>t. MinBleps_init 4 4 1 r (\<lambda>k. 0) = Inr t" for r
    using create_succeeds[of 4 4 r "\<lambda>k. 0", OF _ _ b] by auto
  have "kernel_layout 0 1 = Some \<lparr>order = 0, kernelsize = 1, fftsize = 1, midpoint = 0,
                             rpad = 0, lpad = 1\<rparr>"
    by (simp add: kernel_layout_def Let_def grow_size_step grow_size_stop)
  moreover have "kernel_layout (- 1) 1 = Some \<lparr>order = - 2, kernelsize = - 1, fftsize = 1,
                                  midpoint = 0, rpad = 1, lpad = 2\<rparr>"
    by (simp add: kernel_layout_def Let_def grow_size_step grow_size_stop)
  ultimately show ?thesis using ok[of 0] ok[of "- 1"] by (auto simp: isl_iff_no_result)
qed

section \<open>Which elements of outx2minnaivex are written\<close>















end
